theory Spec2Isabelle
  imports Main "HOL-Library.Word"
begin

section \<open>The sharded buffer cache of kernel/bio.c\<close>

text \<open>
  The development follows the configuration of \<^verbatim>\<open>kernel/bio.c\<close> in which
  \<^verbatim>\<open>LAB_LOCK_2\<close> is defined and \<^verbatim>\<open>LAB_LOCK_ARCHIVE\<close> is not: thirteen hash
  buckets \<^verbatim>\<open>table[NBUCKET]\<close>, each the head of a circular doubly-linked list, one
  spinlock per bucket, and the coarse spinlock \<^verbatim>\<open>bcache.lock\<close> that serialises the
  search for a buffer to recycle.
\<close>

subsection \<open>Data\<close>

type_synonym uint = "32 word"

definition NBUCKET :: nat where
  "NBUCKET = 13"

text \<open>
  A \<^verbatim>\<open>struct buf *\<close> is the null pointer, the address of a bucket head
  \<^verbatim>\<open>&table[i]\<close>, or the address of a pool buffer \<^verbatim>\<open>&bcache.buf[i]\<close>.
\<close>

datatype ptr = Null | Table nat | Buf nat

text \<open>
  \<^verbatim>\<open>struct buf\<close>. The sleep lock is represented by its holder: \<open>None\<close> when it is
  free, \<open>Some pid\<close> when process \<open>pid\<close> holds it. The fields \<^verbatim>\<open>prev\<close> and
  \<^verbatim>\<open>next\<close> are called \<open>prv\<close> and \<open>nxt\<close>.
\<close>

record buf =
  valid :: bool
  dev :: uint
  blockno :: uint
  lock :: "nat option"
  refcnt :: uint
  timestamp :: uint
  prv :: ptr
  nxt :: ptr
  data :: "8 word list"

text \<open>
  The global variables: the bucket heads, the pool \<^verbatim>\<open>bcache.buf\<close>, the clock
  \<^verbatim>\<open>ticks\<close> that the timer interrupt advances, and the contents of the disk.
\<close>

record kstate =
  table :: "buf list"
  bufs :: "buf list"
  ticks :: uint
  disk :: "uint \<times> uint \<Rightarrow> 8 word list"

datatype spinlock = PoolLock | BucketLock nat

datatype event =
    Acquire spinlock
  | Release spinlock
  | AcquireSleep ptr
  | ReleaseSleep ptr
  | DiskRW ptr bool

text \<open>
  How a call ends: it returns a value, it sleeps in \<^verbatim>\<open>acquiresleep\<close> because
  another process holds the buffer's lock, it calls \<^verbatim>\<open>panic\<close>, or it follows a
  null pointer.
\<close>

datatype 'a outcome = Returns 'a | Sleeps ptr | Panics string | Faults

subsection \<open>Memory access through pointers\<close>

fun deref :: "kstate \<Rightarrow> ptr \<Rightarrow> buf option" where
  "deref s Null = None"
| "deref s (Table i) = (if i < length (table s) then Some (table s ! i) else None)"
| "deref s (Buf i) = (if i < length (bufs s) then Some (bufs s ! i) else None)"

fun store :: "ptr \<Rightarrow> (buf \<Rightarrow> buf) \<Rightarrow> kstate \<Rightarrow> kstate" where
  "store Null f s = s"
| "store (Table i) f s = s\<lparr>table := (table s)[i := f (table s ! i)]\<rparr>"
| "store (Buf i) f s = s\<lparr>bufs := (bufs s)[i := f (bufs s ! i)]\<rparr>"

subsection \<open>Sleep locks\<close>

text \<open>
  Modelled from the spec: the sleep lock of \<^verbatim>\<open>sleeplock.c\<close>, which is not among
  the sources. Acquiring blocks until the lock is obtained, releasing is done by the
  holder, and \<^verbatim>\<open>holdingsleep\<close> tells whether the calling process is the holder.
  A call that finds the lock taken ends as \<open>Sleeps\<close>.
\<close>

definition initsleeplock :: "ptr \<Rightarrow> kstate \<Rightarrow> kstate" where
  "initsleeplock b s = store b (\<lambda>x. x\<lparr>lock := None\<rparr>) s"

definition acquiresleep :: "nat \<Rightarrow> ptr \<Rightarrow> kstate \<Rightarrow> ptr outcome \<times> kstate" where
  "acquiresleep p b s =
     (case deref s b of
        None \<Rightarrow> (Faults, s)
      | Some bf \<Rightarrow>
          (case lock bf of
             None \<Rightarrow> (Returns b, store b (\<lambda>x. x\<lparr>lock := Some p\<rparr>) s)
           | Some q \<Rightarrow> (Sleeps b, s)))"

definition holdingsleep :: "nat \<Rightarrow> buf \<Rightarrow> bool" where
  "holdingsleep p bf = (lock bf = Some p)"

definition releasesleep :: "ptr \<Rightarrow> kstate \<Rightarrow> kstate" where
  "releasesleep b s = store b (\<lambda>x. x\<lparr>lock := None\<rparr>) s"

subsection \<open>binit\<close>

text \<open>
  Statically allocated memory starts zeroed: \<open>zeroed NBUF d\<close> is the memory of a
  kernel with \<open>NBUF\<close> pool buffers before \<^verbatim>\<open>binit\<close>, with a disk that holds
  \<open>d\<close>. \<^verbatim>\<open>NBUF\<close> comes from \<^verbatim>\<open>param.h\<close> and is a parameter. The
  spinlocks are not part of the state: a call is followed to its next point with no
  spinlock held, and its lock operations are recorded as events.
\<close>

definition zero_buf :: buf where
  "zero_buf = \<lparr>valid = False, dev = 0, blockno = 0, lock = None, refcnt = 0,
     timestamp = 0, prv = Null, nxt = Null, data = []\<rparr>"

definition zeroed :: "nat \<Rightarrow> (uint \<times> uint \<Rightarrow> 8 word list) \<Rightarrow> kstate" where
  "zeroed NBUF d =
     \<lparr>table = replicate NBUCKET zero_buf, bufs = replicate NBUF zero_buf, ticks = 0, disk = d\<rparr>"

text \<open>Lines 70 and 71, the body of the first loop of \<^verbatim>\<open>binit\<close>.\<close>

definition init_head :: "nat \<Rightarrow> kstate \<Rightarrow> kstate" where
  "init_head i s =
     (let s1 = store (Table i) (\<lambda>x. x\<lparr>nxt := Table i\<rparr>) s
      in store (Table i) (\<lambda>x. x\<lparr>prv := Table i\<rparr>) s1)"

definition binit :: "kstate \<Rightarrow> kstate" where
  "binit s =
     (let s1 = fold init_head [0..<NBUCKET] s
      in fold (\<lambda>i. initsleeplock (Buf i)) [0..<length (bufs s1)] s1)"

subsection \<open>bget\<close>

datatype lookup = Hit ptr | Miss | BadPtr

text \<open>
  The loop of lines 107 to 115, started at \<open>b\<close>. It ends when it comes back to the
  bucket head or finds the block; on a list that never comes back to the head it does not
  end, which is the value \<open>None\<close>.
\<close>

partial_function (option) bucket_walk :: "kstate \<Rightarrow> nat \<Rightarrow> uint \<Rightarrow> uint \<Rightarrow> ptr \<Rightarrow> lookup option" where
  "bucket_walk s bucketno dv bn b =
     (if b = Table bucketno then Some Miss
      else case deref s b of
             None \<Rightarrow> Some BadPtr
           | Some bf \<Rightarrow>
               if blockno bf = bn \<and> dev bf = dv then Some (Hit b)
               else bucket_walk s bucketno dv bn (nxt bf))"


definition bget_lookup :: "uint \<Rightarrow> uint \<Rightarrow> kstate \<Rightarrow> lookup option" where
  "bget_lookup dv bn s =
     (let bucketno = unat bn mod NBUCKET
      in bucket_walk s bucketno dv bn (nxt (table s ! bucketno)))"

text \<open>Lines 109 to 113: the block was found in its bucket.\<close>

definition bget_hit :: "nat \<Rightarrow> nat \<Rightarrow> ptr \<Rightarrow> kstate \<Rightarrow> event list \<times> ptr outcome \<times> kstate" where
  "bget_hit p bucketno b s =
     (let s1 = store b (\<lambda>x. x\<lparr>refcnt := refcnt x + 1\<rparr>) s;
          s2 = store b (\<lambda>x. x\<lparr>timestamp := ticks s1\<rparr>) s1;
          (out, s3) = acquiresleep p b s2
      in ([Release (BucketLock bucketno), AcquireSleep b], out, s3))"

text \<open>
  The loop of lines 123 to 129 over the remaining buffers \<open>bs\<close>, the first of them at
  index \<open>i\<close>, with the current values of \<^verbatim>\<open>timestamp\<close> and \<^verbatim>\<open>lru\<close>.
\<close>

primrec lru_scan :: "buf list \<Rightarrow> nat \<Rightarrow> uint \<Rightarrow> nat option \<Rightarrow> nat option" where
  "lru_scan [] i ts lru = lru"
| "lru_scan (b # bs) i ts lru =
     (if refcnt b = 0 \<and> timestamp b \<le> ts
      then lru_scan bs (Suc i) (timestamp b) (Some i)
      else lru_scan bs (Suc i) ts lru)"

text \<open>Lines 144 to 155: the buffer \<open>lru\<close> is put at the front of the bucket.\<close>

definition bucket_insert :: "nat \<Rightarrow> ptr \<Rightarrow> kstate \<Rightarrow> kstate" where
  "bucket_insert bucketno lru s =
     (if nxt (table s ! bucketno) = Table bucketno then
        (let s1 = store lru (\<lambda>x. x\<lparr>prv := Table bucketno\<rparr>) s;
             s2 = store lru (\<lambda>x. x\<lparr>nxt := Table bucketno\<rparr>) s1;
             s3 = store (Table bucketno) (\<lambda>x. x\<lparr>nxt := lru\<rparr>) s2
         in store (Table bucketno) (\<lambda>x. x\<lparr>prv := lru\<rparr>) s3)
      else
        (let s1 = store lru (\<lambda>x. x\<lparr>nxt := nxt (table s ! bucketno)\<rparr>) s;
             s2 = store lru (\<lambda>x. x\<lparr>prv := Table bucketno\<rparr>) s1;
             s3 = store (nxt (table s2 ! bucketno)) (\<lambda>x. x\<lparr>prv := lru\<rparr>) s2
         in store (Table bucketno) (\<lambda>x. x\<lparr>nxt := lru\<rparr>) s3))"

text \<open>
  Lines 120 to 165 and 238: the block was not found. The bucket lock has been released;
  the buffer to recycle is chosen and relabelled under \<^verbatim>\<open>bcache.lock\<close>.
\<close>

definition bget_admit :: "nat \<Rightarrow> uint \<Rightarrow> uint \<Rightarrow> kstate \<Rightarrow> event list \<times> ptr outcome \<times> kstate" where
  "bget_admit p dv bn s =
     (let bucketno = unat bn mod NBUCKET
      in case lru_scan (bufs s) 0 (ticks s) None of
           None \<Rightarrow> ([Acquire PoolLock, Release PoolLock], Panics ''bget: no buffers'', s)
         | Some i \<Rightarrow>
             (let lru = Buf i;
                  old_bucketno = unat (blockno (bufs s ! i)) mod NBUCKET;
                  s1 = store lru (\<lambda>x. x\<lparr>dev := dv\<rparr>) s;
                  s2 = store lru (\<lambda>x. x\<lparr>blockno := bn\<rparr>) s1;
                  s3 = store lru (\<lambda>x. x\<lparr>valid := False\<rparr>) s2;
                  s4 = store lru (\<lambda>x. x\<lparr>refcnt := 1\<rparr>) s3;
                  s5 = store lru (\<lambda>x. x\<lparr>timestamp := ticks s4\<rparr>) s4;
                  s6 = bucket_insert bucketno lru s5;
                  (out, s7) = acquiresleep p lru s6
              in ([Acquire PoolLock, Acquire (BucketLock bucketno)]
                  @ (if old_bucketno \<noteq> bucketno then [Acquire (BucketLock old_bucketno)] else [])
                  @ (if old_bucketno \<noteq> bucketno then [Release (BucketLock old_bucketno)] else [])
                  @ [Release (BucketLock bucketno), Release PoolLock, AcquireSleep lru],
                  out, s7)))"

text \<open>
  \<^verbatim>\<open>bget(dev, blockno)\<close>, called by process \<open>p\<close>. The result carries the lock
  operations and device transfers of the call in their order.
\<close>

definition bget :: "nat \<Rightarrow> uint \<Rightarrow> uint \<Rightarrow> kstate \<Rightarrow> (event list \<times> ptr outcome \<times> kstate) option" where
  "bget p dv bn s =
     (let bucketno = unat bn mod NBUCKET
      in case bget_lookup dv bn s of
           None \<Rightarrow> None
         | Some BadPtr \<Rightarrow> Some ([Acquire (BucketLock bucketno)], Faults, s)
         | Some (Hit b) \<Rightarrow>
             (let (evs, out, s') = bget_hit p bucketno b s
              in Some (Acquire (BucketLock bucketno) # evs, out, s'))
         | Some Miss \<Rightarrow>
             (let (evs, out, s') = bget_admit p dv bn s
              in Some ([Acquire (BucketLock bucketno), Release (BucketLock bucketno)] @ evs, out, s')))"

subsection \<open>bread and bwrite\<close>

text \<open>
  Modelled from the spec: the device backend \<^verbatim>\<open>virtio_disk_rw\<close>, which is not
  among the sources. The call is synchronous: a read copies the block that the buffer is
  labelled with into the buffer's payload, a write copies the payload to that block.
\<close>

definition virtio_disk_rw :: "ptr \<Rightarrow> bool \<Rightarrow> kstate \<Rightarrow> kstate" where
  "virtio_disk_rw b w s =
     (case deref s b of
        None \<Rightarrow> s
      | Some bf \<Rightarrow>
          if w then s\<lparr>disk := (disk s)((dev bf, blockno bf) := data bf)\<rparr>
          else store b (\<lambda>x. x\<lparr>data := disk s (dev bf, blockno bf)\<rparr>) s)"

text \<open>Lines 248 to 252 of \<^verbatim>\<open>bread\<close>: what is done with the buffer that \<^verbatim>\<open>bget\<close> returned.\<close>

definition ensure_valid :: "ptr \<Rightarrow> kstate \<Rightarrow> event list \<times> ptr outcome \<times> kstate" where
  "ensure_valid b s =
     (case deref s b of
        None \<Rightarrow> ([], Faults, s)
      | Some bf \<Rightarrow>
          if \<not> valid bf then
            (let s1 = virtio_disk_rw b False s;
                 s2 = store b (\<lambda>x. x\<lparr>valid := True\<rparr>) s1
             in ([DiskRW b False], Returns b, s2))
          else ([], Returns b, s))"

definition bread :: "nat \<Rightarrow> uint \<Rightarrow> uint \<Rightarrow> kstate \<Rightarrow> (event list \<times> ptr outcome \<times> kstate) option" where
  "bread p dv bn s =
     (case bget p dv bn s of
        None \<Rightarrow> None
      | Some (evs, Returns b, s1) \<Rightarrow>
          (let (evs', out, s2) = ensure_valid b s1 in Some (evs @ evs', out, s2))
      | Some (evs, out, s1) \<Rightarrow> Some (evs, out, s1))"


subsection \<open>brelse, bpin and bunpin\<close>

text \<open>
  Lines 280 and 281: \<^verbatim>\<open>b->prev->next = b->next; b->next->prev = b->prev;\<close>.
  The result is \<open>None\<close> when one of the two neighbours is the null pointer.
\<close>

definition unlink :: "ptr \<Rightarrow> kstate \<Rightarrow> kstate option" where
  "unlink b s =
     (case deref s b of
        None \<Rightarrow> None
      | Some bf \<Rightarrow>
          (case deref s (prv bf) of
             None \<Rightarrow> None
           | Some _ \<Rightarrow>
               (let s1 = store (prv bf) (\<lambda>x. x\<lparr>nxt := nxt bf\<rparr>) s
                in case deref s1 b of
                     None \<Rightarrow> None
                   | Some bf1 \<Rightarrow>
                       (case deref s1 (nxt bf1) of
                          None \<Rightarrow> None
                        | Some _ \<Rightarrow> Some (store (nxt bf1) (\<lambda>x. x\<lparr>prv := prv bf1\<rparr>) s1)))))"

definition brelse :: "nat \<Rightarrow> ptr \<Rightarrow> kstate \<Rightarrow> event list \<times> unit outcome \<times> kstate" where
  "brelse p b s =
     (case deref s b of
        None \<Rightarrow> ([], Faults, s)
      | Some bf \<Rightarrow>
          if \<not> holdingsleep p bf then ([], Panics ''brelse'', s)
          else
            (let s1 = releasesleep b s;
                 bucketno = unat (blockno bf) mod NBUCKET;
                 s2 = store b (\<lambda>x. x\<lparr>refcnt := refcnt x - 1\<rparr>) s1
             in if refcnt bf - 1 = 0 then
                  (case unlink b s2 of
                     None \<Rightarrow> ([ReleaseSleep b, Acquire (BucketLock bucketno)], Faults, s2)
                   | Some s3 \<Rightarrow>
                       ([ReleaseSleep b, Acquire (BucketLock bucketno),
                         Release (BucketLock bucketno)], Returns (), s3))
                else
                  ([ReleaseSleep b, Acquire (BucketLock bucketno),
                    Release (BucketLock bucketno)], Returns (), s2)))"

definition bpin :: "ptr \<Rightarrow> kstate \<Rightarrow> event list \<times> unit outcome \<times> kstate" where
  "bpin b s =
     (case deref s b of
        None \<Rightarrow> ([], Faults, s)
      | Some bf \<Rightarrow>
          (let bucketno = unat (blockno bf) mod NBUCKET
           in ([Acquire (BucketLock bucketno), Release (BucketLock bucketno)], Returns (),
               store b (\<lambda>x. x\<lparr>refcnt := refcnt x + 1\<rparr>) s)))"

definition bunpin :: "ptr \<Rightarrow> kstate \<Rightarrow> event list \<times> unit outcome \<times> kstate" where
  "bunpin b s =
     (case deref s b of
        None \<Rightarrow> ([], Faults, s)
      | Some bf \<Rightarrow>
          (let bucketno = unat (blockno bf) mod NBUCKET
           in ([Acquire (BucketLock bucketno), Release (BucketLock bucketno)], Returns (),
               store b (\<lambda>x. x\<lparr>refcnt := refcnt x - 1\<rparr>) s)))"


subsection \<open>Running the cache\<close>

declare bucket_walk.simps [code]

text \<open>
  The state after boot: \<^verbatim>\<open>binit\<close> has run on a pool of \<open>NBUF\<close> buffers and the
  disk holds nothing yet.
\<close>

definition blank_disk :: "uint \<times> uint \<Rightarrow> 8 word list" where
  "blank_disk = (\<lambda>_. [])"

definition boot :: "nat \<Rightarrow> kstate" where
  "boot NBUF = binit (zeroed NBUF blank_disk)"

definition events_of :: "(event list \<times> 'a \<times> kstate) option \<Rightarrow> event list" where
  "events_of r = (case r of None \<Rightarrow> [] | Some (evs, _, _) \<Rightarrow> evs)"

definition label :: "buf \<Rightarrow> uint \<times> uint" where
  "label b = (dev b, blockno b)"

definition labels :: "kstate \<Rightarrow> (uint \<times> uint) list" where
  "labels s = map label (bufs s)"

definition refcnts :: "kstate \<Rightarrow> uint list" where
  "refcnts s = map refcnt (bufs s)"

text \<open>
  What the kernel does next. A process runs a call of the interface to its return, or,
  for \<^verbatim>\<open>bget\<close>, one of its two parts: \<open>Lookup\<close> is lines 104 to 118, a search of
  the bucket that does not find the block and ends with no lock held; \<open>Admit\<close> is
  lines 120 to 163, which start by taking \<^verbatim>\<open>bcache.lock\<close>. \<open>Clock t\<close> stands for
  the timer interrupts that bring \<^verbatim>\<open>ticks\<close> to \<open>t\<close>. A step is \<open>None\<close> when
  the call does not return.
\<close>

datatype step =
    Clock uint
  | Lookup nat uint uint
  | Admit nat uint uint
  | Bget nat uint uint
  | Bread nat uint uint
  | Brelse nat ptr
  | Bpin ptr
  | Bunpin ptr

fun returned :: "event list \<times> 'a outcome \<times> kstate \<Rightarrow> kstate option" where
  "returned (evs, Returns x, s) = Some s"
| "returned (evs, out, s) = None"

fun do_step :: "step \<Rightarrow> kstate \<Rightarrow> kstate option" where
  "do_step (Clock t) s = Some (s\<lparr>ticks := t\<rparr>)"
| "do_step (Lookup p dv bn) s = (if bget_lookup dv bn s = Some Miss then Some s else None)"
| "do_step (Admit p dv bn) s = returned (bget_admit p dv bn s)"
| "do_step (Bget p dv bn) s = Option.bind (bget p dv bn s) returned"
| "do_step (Bread p dv bn) s = Option.bind (bread p dv bn s) returned"
| "do_step (Brelse p b) s = returned (brelse p b s)"
| "do_step (Bpin b) s = returned (bpin b s)"
| "do_step (Bunpin b) s = returned (bunpin b s)"

fun run :: "step list \<Rightarrow> kstate \<Rightarrow> kstate option" where
  "run [] s = Some s"
| "run (c # cs) s = Option.bind (do_step c s) (run cs)"

text \<open>No two buffers in use carry the same device and block number.\<close>

definition no_duplicate :: "kstate \<Rightarrow> bool" where
  "no_duplicate s = distinct (map label (filter (\<lambda>b. refcnt b \<noteq> 0) (bufs s)))"

text \<open>
  Lock discipline, read off the events of a call. \<open>sleeps_unlocked held evs\<close>: every
  \<^verbatim>\<open>acquiresleep\<close> in \<open>evs\<close> happens while no spinlock is held, \<open>held\<close> being the
  spinlocks held at the start. \<open>lower_first held evs\<close>: a bucket lock is only taken
  when every bucket lock already held has a smaller index. \<open>pool_guarded held evs\<close>:
  \<^verbatim>\<open>bcache.lock\<close> is only taken when no spinlock is held, and a bucket lock is only
  taken when no other bucket lock is held or \<^verbatim>\<open>bcache.lock\<close> is.
\<close>

fun sleeps_unlocked :: "spinlock list \<Rightarrow> event list \<Rightarrow> bool" where
  "sleeps_unlocked held [] = True"
| "sleeps_unlocked held (Acquire l # es) = sleeps_unlocked (l # held) es"
| "sleeps_unlocked held (Release l # es) = sleeps_unlocked (remove1 l held) es"
| "sleeps_unlocked held (AcquireSleep b # es) = (held = [] \<and> sleeps_unlocked held es)"
| "sleeps_unlocked held (e # es) = sleeps_unlocked held es"

fun is_bucket :: "spinlock \<Rightarrow> bool" where
  "is_bucket PoolLock = False"
| "is_bucket (BucketLock i) = True"

fun pool_guarded :: "spinlock list \<Rightarrow> event list \<Rightarrow> bool" where
  "pool_guarded held [] = True"
| "pool_guarded held (Acquire PoolLock # es) = (held = [] \<and> pool_guarded (PoolLock # held) es)"
| "pool_guarded held (Acquire (BucketLock i) # es) =
     ((filter is_bucket held = [] \<or> PoolLock \<in> set held) \<and> pool_guarded (BucketLock i # held) es)"
| "pool_guarded held (Release l # es) = pool_guarded (remove1 l held) es"
| "pool_guarded held (e # es) = pool_guarded held es"

fun below :: "nat \<Rightarrow> spinlock \<Rightarrow> bool" where
  "below i PoolLock = True"
| "below i (BucketLock j) = (j < i)"

fun lower_first :: "spinlock list \<Rightarrow> event list \<Rightarrow> bool" where
  "lower_first held [] = True"
| "lower_first held (Acquire (BucketLock i) # es) =
     (list_all (below i) held \<and> lower_first (BucketLock i # held) es)"
| "lower_first held (Acquire PoolLock # es) = lower_first (PoolLock # held) es"
| "lower_first held (Release l # es) = lower_first (remove1 l held) es"
| "lower_first held (e # es) = lower_first held es"

text \<open>
  One use of a block with no other buffer held: the clock reads \<open>t\<close>, the process gets
  the buffer of block \<open>(dv, bn)\<close> and releases it. \<open>use_blocks\<close> does this for a list
  of blocks and gives the buffers that were handed out.
\<close>

definition use_block :: "nat \<Rightarrow> uint \<times> uint \<times> uint \<Rightarrow> kstate \<Rightarrow> (ptr \<times> kstate) option" where
  "use_block p r s =
     (case r of (t, dv, bn) \<Rightarrow>
        (case bget p dv bn (s\<lparr>ticks := t\<rparr>) of
           Some (evs, Returns b, s1) \<Rightarrow>
             (case brelse p b s1 of
                (evs', Returns u, s2) \<Rightarrow> Some (b, s2)
              | _ \<Rightarrow> None)
         | _ \<Rightarrow> None))"

fun use_blocks :: "nat \<Rightarrow> (uint \<times> uint \<times> uint) list \<Rightarrow> kstate \<Rightarrow> (ptr list \<times> kstate) option" where
  "use_blocks p [] s = Some ([], s)"
| "use_blocks p (r # rs) s =
     (case use_block p r s of
        None \<Rightarrow> None
      | Some (b, s1) \<Rightarrow>
          (case use_blocks p rs s1 of
             None \<Rightarrow> None
           | Some (bs, s2) \<Rightarrow> Some (b # bs, s2)))"

text \<open>
  The block whose buffer is recycled when, after the uses \<open>rs\<close>, block \<open>r\<close> is used:
  the label that the buffer handed out for \<open>r\<close> carried just before.
\<close>

definition evicted :: "nat \<Rightarrow> (uint \<times> uint \<times> uint) list \<Rightarrow> uint \<times> uint \<times> uint \<Rightarrow> kstate \<Rightarrow> (uint \<times> uint) option" where
  "evicted p rs r s =
     (case use_blocks p rs s of
        None \<Rightarrow> None
      | Some (bs, s1) \<Rightarrow>
          (case use_block p r s1 of
             None \<Rightarrow> None
           | Some (b, s2) \<Rightarrow> map_option label (deref s1 b)))"

text \<open>
  What a caller sees of a call, and the state after a sequence of steps that all return
  (the state at the start otherwise).
\<close>

definition result_of :: "(event list \<times> 'a \<times> kstate) option \<Rightarrow> (event list \<times> 'a) option" where
  "result_of r = (case r of None \<Rightarrow> None | Some (evs, out, s) \<Rightarrow> Some (evs, out))"

definition after :: "step list \<Rightarrow> kstate \<Rightarrow> kstate" where
  "after cs s = (case run cs s of None \<Rightarrow> s | Some s' \<Rightarrow> s')"

text \<open>
  A buffer of the pool that was zeroed, then handed out for block \<open>(dv, bn)\<close> at
  tick \<open>t\<close> and released.
\<close>

definition used_buf :: "uint \<times> uint \<times> uint \<Rightarrow> buf" where
  "used_buf r = (case r of (t, dv, bn) \<Rightarrow>
     zero_buf\<lparr>dev := dv, blockno := bn, timestamp := t,
       prv := Table (unat bn mod NBUCKET), nxt := Table (unat bn mod NBUCKET)\<rparr>)"

section \<open>The choice of the buffer to recycle\<close>

lemma lru_scan_none_accepted:
  "\<forall>b\<in>set bs. \<not> (refcnt b = 0 \<and> timestamp b \<le> ts) \<Longrightarrow> lru_scan bs i ts lru = lru"
  by (induction bs arbitrary: i) auto

lemma lru_scan_pick:
  "refcnt b = 0 \<Longrightarrow> timestamp b \<le> ts \<Longrightarrow>
   \<forall>x\<in>set pre. refcnt x = 0 \<longrightarrow> timestamp b \<le> timestamp x \<Longrightarrow>
   \<forall>x\<in>set post. refcnt x = 0 \<longrightarrow> timestamp b < timestamp x \<Longrightarrow>
   lru_scan (pre @ b # post) i ts lru = Some (i + length pre)"
proof (induction pre arbitrary: i ts lru)
  case Nil
  then have "\<forall>x\<in>set post. \<not> (refcnt x = 0 \<and> timestamp x \<le> timestamp b)"
    by (auto simp: not_le)
  then show ?case using Nil by (simp add: lru_scan_none_accepted)
next
  case (Cons x pre)
  show ?case
  proof (cases "refcnt x = 0 \<and> timestamp x \<le> ts")
    case True
    then have "timestamp b \<le> timestamp x" using Cons.prems by simp
    then show ?thesis using True Cons.prems Cons.IH [of "timestamp x" "Suc i" "Some i"] by simp
  next
    case False
    then show ?thesis using Cons.prems Cons.IH [of ts "Suc i" lru] by auto
  qed
qed

text \<open>
  Where a result of the loop comes from: it is the value of \<^verbatim>\<open>lru\<close> at the start
  and no buffer was taken, or it is the last buffer taken, which splits the list.
\<close>

lemma lru_scan_result:
  "lru_scan bs i ts lru = Some k \<Longrightarrow>
   (lru = Some k \<and> (\<forall>b\<in>set bs. \<not> (refcnt b = 0 \<and> timestamp b \<le> ts))) \<or>
   (\<exists>pre b post. bs = pre @ b # post \<and> k = i + length pre \<and> refcnt b = 0 \<and> timestamp b \<le> ts \<and>
      (\<forall>x\<in>set pre. refcnt x = 0 \<longrightarrow> timestamp b \<le> timestamp x) \<and>
      (\<forall>x\<in>set post. refcnt x = 0 \<longrightarrow> timestamp b < timestamp x))"
proof (induction bs arbitrary: i ts lru)
  case Nil
  then show ?case by simp
next
  case (Cons x bs)
  show ?case
  proof (cases "refcnt x = 0 \<and> timestamp x \<le> ts")
    case True
    then have r: "lru_scan bs (Suc i) (timestamp x) (Some i) = Some k" using Cons.prems by simp
    from Cons.IH [OF r] show ?thesis
    proof
      assume a: "Some i = Some k \<and> (\<forall>b\<in>set bs. \<not> (refcnt b = 0 \<and> timestamp b \<le> timestamp x))"
      then have "x # bs = [] @ x # bs \<and> k = i + length ([]::buf list) \<and> refcnt x = 0 \<and> timestamp x \<le> ts \<and>
        (\<forall>y\<in>set ([]::buf list). refcnt y = 0 \<longrightarrow> timestamp x \<le> timestamp y) \<and>
        (\<forall>y\<in>set bs. refcnt y = 0 \<longrightarrow> timestamp x < timestamp y)"
        using True by (auto simp: not_le)
      then show ?thesis by blast
    next
      assume "\<exists>pre b post. bs = pre @ b # post \<and> k = Suc i + length pre \<and> refcnt b = 0 \<and> timestamp b \<le> timestamp x \<and>
        (\<forall>y\<in>set pre. refcnt y = 0 \<longrightarrow> timestamp b \<le> timestamp y) \<and>
        (\<forall>y\<in>set post. refcnt y = 0 \<longrightarrow> timestamp b < timestamp y)"
      then obtain pre b post where p: "bs = pre @ b # post" "k = Suc i + length pre" "refcnt b = 0"
        "timestamp b \<le> timestamp x"
        "\<forall>y\<in>set pre. refcnt y = 0 \<longrightarrow> timestamp b \<le> timestamp y"
        "\<forall>y\<in>set post. refcnt y = 0 \<longrightarrow> timestamp b < timestamp y" by blast
      then have "x # bs = (x # pre) @ b # post \<and> k = i + length (x # pre) \<and> refcnt b = 0 \<and> timestamp b \<le> ts \<and>
        (\<forall>y\<in>set (x # pre). refcnt y = 0 \<longrightarrow> timestamp b \<le> timestamp y) \<and>
        (\<forall>y\<in>set post. refcnt y = 0 \<longrightarrow> timestamp b < timestamp y)"
        using True by auto
      then show ?thesis by blast
    qed
  next
    case False
    then have r: "lru_scan bs (Suc i) ts lru = Some k" using Cons.prems by auto
    from Cons.IH [OF r] show ?thesis
    proof
      assume "lru = Some k \<and> (\<forall>b\<in>set bs. \<not> (refcnt b = 0 \<and> timestamp b \<le> ts))"
      then show ?thesis using False by auto
    next
      assume "\<exists>pre b post. bs = pre @ b # post \<and> k = Suc i + length pre \<and> refcnt b = 0 \<and> timestamp b \<le> ts \<and>
        (\<forall>y\<in>set pre. refcnt y = 0 \<longrightarrow> timestamp b \<le> timestamp y) \<and>
        (\<forall>y\<in>set post. refcnt y = 0 \<longrightarrow> timestamp b < timestamp y)"
      then obtain pre b post where p: "bs = pre @ b # post" "k = Suc i + length pre" "refcnt b = 0"
        "timestamp b \<le> ts"
        "\<forall>y\<in>set pre. refcnt y = 0 \<longrightarrow> timestamp b \<le> timestamp y"
        "\<forall>y\<in>set post. refcnt y = 0 \<longrightarrow> timestamp b < timestamp y" by blast
      then have "x # bs = (x # pre) @ b # post \<and> k = i + length (x # pre) \<and> refcnt b = 0 \<and> timestamp b \<le> ts \<and>
        (\<forall>y\<in>set (x # pre). refcnt y = 0 \<longrightarrow> timestamp b \<le> timestamp y) \<and>
        (\<forall>y\<in>set post. refcnt y = 0 \<longrightarrow> timestamp b < timestamp y)"
        using False by auto
      then show ?thesis by blast
    qed
  qed
qed

lemma lru_scan_victim:
  assumes "lru_scan bs 0 ts None = Some k"
  shows "k < length bs \<and> refcnt (bs ! k) = 0 \<and> timestamp (bs ! k) \<le> ts \<and>
     (\<forall>j<length bs. refcnt (bs ! j) = 0 \<longrightarrow> timestamp (bs ! k) \<le> timestamp (bs ! j)) \<and>
     (\<forall>j<length bs. k < j \<and> refcnt (bs ! j) = 0 \<longrightarrow> timestamp (bs ! k) < timestamp (bs ! j))"
proof -
  from lru_scan_result [OF assms] obtain pre b post where p: "bs = pre @ b # post" "k = length pre" "refcnt b = 0"
        "timestamp b \<le> ts"
        "\<forall>y\<in>set pre. refcnt y = 0 \<longrightarrow> timestamp b \<le> timestamp y"
        "\<forall>y\<in>set post. refcnt y = 0 \<longrightarrow> timestamp b < timestamp y" by auto
  have k: "bs ! k = b" using p by simp
  have lo: "timestamp b \<le> timestamp (bs ! j)" if "j < length bs" "refcnt (bs ! j) = 0" for j
  proof -
    have "bs ! j \<in> set bs" using that by simp
    then have "bs ! j \<in> set pre \<or> bs ! j = b \<or> bs ! j \<in> set post" using p(1) by auto
    then show ?thesis using p that(2) by (auto simp: less_imp_le)
  qed
  have hi: "timestamp b < timestamp (bs ! j)" if "j < length bs" "k < j" "refcnt (bs ! j) = 0" for j
  proof -
    have "bs ! j = post ! (j - Suc k)" using p that by (simp add: nth_append nth_Cons')
    moreover have "j - Suc k < length post" using p that by simp
    ultimately have "bs ! j \<in> set post" by simp
    then show ?thesis using p that by auto
  qed
  show ?thesis using p k lo hi by auto
qed


lemma lru_scan_pick_index:
  assumes k: "k < length bs" and f: "refcnt (bs ! k) = 0" and t: "timestamp (bs ! k) \<le> ts"
    and lo: "\<forall>j<length bs. refcnt (bs ! j) = 0 \<longrightarrow> timestamp (bs ! k) \<le> timestamp (bs ! j)"
    and hi: "\<forall>j<length bs. refcnt (bs ! j) = 0 \<and> timestamp (bs ! j) = timestamp (bs ! k) \<longrightarrow> j \<le> k"
  shows "lru_scan bs 0 ts None = Some k"
proof -
  have d: "bs = take k bs @ bs ! k # drop (Suc k) bs" using k by (simp add: id_take_nth_drop)
  have pre: "\<forall>x\<in>set (take k bs). refcnt x = 0 \<longrightarrow> timestamp (bs ! k) \<le> timestamp x"
  proof
    fix x assume "x \<in> set (take k bs)"
    then obtain j where "j < k" "x = bs ! j" using k by (auto simp: in_set_conv_nth)
    then show "refcnt x = 0 \<longrightarrow> timestamp (bs ! k) \<le> timestamp x" using lo k by auto
  qed
  have post: "\<forall>x\<in>set (drop (Suc k) bs). refcnt x = 0 \<longrightarrow> timestamp (bs ! k) < timestamp x"
  proof
    fix x assume "x \<in> set (drop (Suc k) bs)"
    then obtain i where i: "i < length bs - Suc k" "x = bs ! (Suc k + i)"
      by (auto simp: in_set_conv_nth)
    show "refcnt x = 0 \<longrightarrow> timestamp (bs ! k) < timestamp x"
    proof
      assume z: "refcnt x = 0"
      have l: "Suc k + i < length bs" using i by simp
      have le: "timestamp (bs ! k) \<le> timestamp x" using lo l z i by auto
      have "timestamp x \<noteq> timestamp (bs ! k)"
      proof
        assume "timestamp x = timestamp (bs ! k)"
        then have "Suc k + i \<le> k" using hi l z i by auto
        then show False by simp
      qed
      then show "timestamp (bs ! k) < timestamp x" using le by simp
    qed
  qed
  have "lru_scan (take k bs @ bs ! k # drop (Suc k) bs) 0 ts None = Some (0 + length (take k bs))"
    by (rule lru_scan_pick [OF f t pre post])
  then show ?thesis using d k by simp
qed

text \<open>
  C10: when several buffers with \<^verbatim>\<open>refcnt == 0\<close> share the smallest timestamp, the
  loop of lines 123 to 129 ends with the one of largest index: the comparison is
  \<^verbatim>\<open><=\<close>, so a later buffer with an equal timestamp replaces the earlier choice.
  The loop ends with buffer \<open>v\<close> exactly when \<open>v\<close> is free, its timestamp is not
  after \<^verbatim>\<open>ticks\<close>, where the comparison starts, no free buffer has a smaller
  timestamp, and every free buffer with the same timestamp has an index that is not
  larger.
\<close>

theorem lru_scan_tie_break:
  "lru_scan (bufs s) 0 (ticks s) None = Some v \<longleftrightarrow>
     v < length (bufs s) \<and> refcnt (bufs s ! v) = 0 \<and> timestamp (bufs s ! v) \<le> ticks s \<and>
     (\<forall>j<length (bufs s). refcnt (bufs s ! j) = 0 \<longrightarrow> timestamp (bufs s ! v) \<le> timestamp (bufs s ! j)) \<and>
     (\<forall>j<length (bufs s). refcnt (bufs s ! j) = 0 \<and> timestamp (bufs s ! j) = timestamp (bufs s ! v) \<longrightarrow> j \<le> v)"
proof
  assume a: "lru_scan (bufs s) 0 (ticks s) None = Some v"
  note r = lru_scan_victim [OF a]
  have "j \<le> v" if "j < length (bufs s)" "refcnt (bufs s ! j) = 0"
    "timestamp (bufs s ! j) = timestamp (bufs s ! v)" for j
  proof (rule ccontr)
    assume "\<not> j \<le> v"
    then have "v < j" by simp
    with r that have "timestamp (bufs s ! v) < timestamp (bufs s ! j)" by blast
    then show False using that by simp
  qed
  then show "v < length (bufs s) \<and> refcnt (bufs s ! v) = 0 \<and> timestamp (bufs s ! v) \<le> ticks s \<and>
     (\<forall>j<length (bufs s). refcnt (bufs s ! j) = 0 \<longrightarrow> timestamp (bufs s ! v) \<le> timestamp (bufs s ! j)) \<and>
     (\<forall>j<length (bufs s). refcnt (bufs s ! j) = 0 \<and> timestamp (bufs s ! j) = timestamp (bufs s ! v) \<longrightarrow> j \<le> v)"
    using r by blast
next
  assume "v < length (bufs s) \<and> refcnt (bufs s ! v) = 0 \<and> timestamp (bufs s ! v) \<le> ticks s \<and>
     (\<forall>j<length (bufs s). refcnt (bufs s ! j) = 0 \<longrightarrow> timestamp (bufs s ! v) \<le> timestamp (bufs s ! j)) \<and>
     (\<forall>j<length (bufs s). refcnt (bufs s ! j) = 0 \<and> timestamp (bufs s ! j) = timestamp (bufs s ! v) \<longrightarrow> j \<le> v)"
  then show "lru_scan (bufs s) 0 (ticks s) None = Some v"
    using lru_scan_pick_index [of v "bufs s" "ticks s"] by blast
qed

text \<open>
  A pool of two whose buffers were both used and released at tick 1, at tick 2: the two
  free buffers share timestamp 1 and the second is chosen.
\<close>

theorem lru_scan_tie_break_witness:
  "refcnts (after [Clock 1, Bget 1 0 1, Brelse 1 (Buf 1), Bget 1 0 2, Brelse 1 (Buf 0), Clock 2] (boot 2)) = [0, 0] \<and>
   map timestamp (bufs (after [Clock 1, Bget 1 0 1, Brelse 1 (Buf 1), Bget 1 0 2, Brelse 1 (Buf 0), Clock 2] (boot 2))) = [1, 1] \<and>
   ticks (after [Clock 1, Bget 1 0 1, Brelse 1 (Buf 1), Bget 1 0 2, Brelse 1 (Buf 0), Clock 2] (boot 2)) = 2 \<and>
   lru_scan (bufs (after [Clock 1, Bget 1 0 1, Brelse 1 (Buf 1), Bget 1 0 2, Brelse 1 (Buf 0), Clock 2] (boot 2))) 0
     (ticks (after [Clock 1, Bget 1 0 1, Brelse 1 (Buf 1), Bget 1 0 2, Brelse 1 (Buf 0), Clock 2] (boot 2))) None = Some 1"
proof -
  let ?S = "after [Clock 1, Bget 1 0 1, Brelse 1 (Buf 1), Bget 1 0 2, Brelse 1 (Buf 0), Clock 2] (boot 2)"
  have r: "refcnts ?S = [0, 0]" by code_simp
  have t: "map timestamp (bufs ?S) = [1, 1]" by code_simp
  have c: "ticks ?S = 2" by code_simp
  have l: "length (bufs ?S) = 2" using t by (metis length_map length_Cons list.size(3) numeral_2_eq_2)
  have r0: "refcnt (bufs ?S ! 0) = 0" and r1: "refcnt (bufs ?S ! 1) = 0"
    and t0: "timestamp (bufs ?S ! 0) = 1" and t1: "timestamp (bufs ?S ! 1) = 1"
    by code_simp+
  have rhs: "1 < length (bufs ?S) \<and> refcnt (bufs ?S ! 1) = 0 \<and> timestamp (bufs ?S ! 1) \<le> ticks ?S \<and>
     (\<forall>j<length (bufs ?S). refcnt (bufs ?S ! j) = 0 \<longrightarrow> timestamp (bufs ?S ! 1) \<le> timestamp (bufs ?S ! j)) \<and>
     (\<forall>j<length (bufs ?S). refcnt (bufs ?S ! j) = 0 \<and> timestamp (bufs ?S ! j) = timestamp (bufs ?S ! 1) \<longrightarrow> j \<le> 1)"
    using l r1 t0 t1 c by (auto simp: less_Suc_eq numeral_2_eq_2)
  have "lru_scan (bufs ?S) 0 (ticks ?S) None = Some 1"
    using rhs lru_scan_tie_break [of ?S 1] by blast
  then show ?thesis using r t c by blast
qed

section \<open>Locks\<close>

text \<open>
  C9: in every call of \<^verbatim>\<open>bget\<close>, on the path that finds the block and on the path
  that recycles a buffer, \<^verbatim>\<open>acquiresleep\<close> is called with no bucket lock and not
  \<^verbatim>\<open>bcache.lock\<close> held; and a call that hands out a buffer, or waits for one, has
  called \<^verbatim>\<open>acquiresleep\<close> on it.
\<close>

theorem bget_sleeps_unlocked:
  assumes "result_of (bget p dv bn s) = Some (evs, out)"
  shows "sleeps_unlocked [] evs \<and> ((out = Returns b \<or> out = Sleeps b) \<longrightarrow> AcquireSleep b \<in> set evs)"
  using assms
  by (auto simp: result_of_def bget_def bget_hit_def bget_admit_def acquiresleep_def Let_def
      split: option.splits lookup.splits prod.splits if_splits)

theorem bget_sleeps_unlocked_witness:
  "result_of (bget 1 0 1 (boot 3)) =
     Some ([Acquire (BucketLock 1), Release (BucketLock 1), Acquire PoolLock,
            Acquire (BucketLock 1), Acquire (BucketLock 0), Release (BucketLock 0),
            Release (BucketLock 1), Release PoolLock, AcquireSleep (Buf 2)], Returns (Buf 2)) \<and>
   sleeps_unlocked []
     [Acquire (BucketLock 1), Release (BucketLock 1), Acquire PoolLock,
      Acquire (BucketLock 1), Acquire (BucketLock 0), Release (BucketLock 0),
      Release (BucketLock 1), Release PoolLock, AcquireSleep (Buf 2)] \<and>
   AcquireSleep (Buf 2) \<in> set
     [Acquire (BucketLock 1), Release (BucketLock 1), Acquire PoolLock,
      Acquire (BucketLock 1), Acquire (BucketLock 0), Release (BucketLock 0),
      Release (BucketLock 1), Release PoolLock, AcquireSleep (Buf 2)]"
proof -
  have h: "result_of (bget 1 0 1 (boot 3)) =
     Some ([Acquire (BucketLock 1), Release (BucketLock 1), Acquire PoolLock,
            Acquire (BucketLock 1), Acquire (BucketLock 0), Release (BucketLock 0),
            Release (BucketLock 1), Release PoolLock, AcquireSleep (Buf 2)], Returns (Buf 2))"
    by code_simp
  show ?thesis using h bget_sleeps_unlocked [OF h, of "Buf 2"] by blast
qed

text \<open>
  C2, as stated: whenever \<^verbatim>\<open>bget\<close> holds two bucket locks, it has taken the one of
  smaller index first. This fails for the first \<^verbatim>\<open>bget(0, 1)\<close> after boot on a pool
  of three: the buffer recycled is labelled with block 0, so the lock of bucket 0 is taken
  while the lock of bucket 1 is held.
\<close>

theorem bget_lock_order_counterexample:
  "\<not> lower_first [] (events_of (bget 1 0 1 (boot 3)))"
  by code_simp

text \<open>
  C2, amended: no call of \<^verbatim>\<open>bget\<close> takes a second bucket lock unless it holds
  \<^verbatim>\<open>bcache.lock\<close>. When the buffer to recycle is labelled with a block of another
  bucket, \<^verbatim>\<open>bget\<close> takes the lock of the bucket of the requested block first and
  the lock of the buffer's old bucket second, whichever index is smaller, both while it
  holds \<^verbatim>\<open>bcache.lock\<close>, and releases them in the opposite order.
\<close>

theorem bget_two_bucket_locks:
  "pool_guarded [] (events_of (bget p dv bn s)) \<and>
   (bget_lookup dv bn s = Some Miss \<and> lru_scan (bufs s) 0 (ticks s) None = Some v \<and>
    unat (blockno (bufs s ! v)) mod NBUCKET \<noteq> unat bn mod NBUCKET \<longrightarrow>
    events_of (bget p dv bn s) =
      [Acquire (BucketLock (unat bn mod NBUCKET)), Release (BucketLock (unat bn mod NBUCKET)),
       Acquire PoolLock,
       Acquire (BucketLock (unat bn mod NBUCKET)),
       Acquire (BucketLock (unat (blockno (bufs s ! v)) mod NBUCKET)),
       Release (BucketLock (unat (blockno (bufs s ! v)) mod NBUCKET)),
       Release (BucketLock (unat bn mod NBUCKET)),
       Release PoolLock, AcquireSleep (Buf v)])"
proof -
  have g: "pool_guarded [] (events_of (bget p dv bn s))"
    by (auto simp: events_of_def bget_def bget_hit_def bget_admit_def acquiresleep_def Let_def
        split: option.splits lookup.splits prod.splits if_splits)
  have o: "events_of (bget p dv bn s) =
      [Acquire (BucketLock (unat bn mod NBUCKET)), Release (BucketLock (unat bn mod NBUCKET)),
       Acquire PoolLock,
       Acquire (BucketLock (unat bn mod NBUCKET)),
       Acquire (BucketLock (unat (blockno (bufs s ! v)) mod NBUCKET)),
       Release (BucketLock (unat (blockno (bufs s ! v)) mod NBUCKET)),
       Release (BucketLock (unat bn mod NBUCKET)),
       Release PoolLock, AcquireSleep (Buf v)]"
    if "bget_lookup dv bn s = Some Miss" "lru_scan (bufs s) 0 (ticks s) None = Some v"
      "unat (blockno (bufs s ! v)) mod NBUCKET \<noteq> unat bn mod NBUCKET"
    using that by (simp add: events_of_def bget_def bget_admit_def Let_def split: prod.splits)
  show ?thesis using g o by blast
qed

theorem bget_two_bucket_locks_witness:
  "bget_lookup 0 1 (boot 3) = Some Miss \<and>
   lru_scan (bufs (boot 3)) 0 (ticks (boot 3)) None = Some 2 \<and>
   unat (blockno (bufs (boot 3) ! 2)) mod NBUCKET \<noteq> unat (1::uint) mod NBUCKET \<and>
   pool_guarded [] (events_of (bget 1 0 1 (boot 3))) \<and>
   events_of (bget 1 0 1 (boot 3)) =
     [Acquire (BucketLock (unat (1::uint) mod NBUCKET)), Release (BucketLock (unat (1::uint) mod NBUCKET)),
      Acquire PoolLock,
      Acquire (BucketLock (unat (1::uint) mod NBUCKET)),
      Acquire (BucketLock (unat (blockno (bufs (boot 3) ! 2)) mod NBUCKET)),
      Release (BucketLock (unat (blockno (bufs (boot 3) ! 2)) mod NBUCKET)),
      Release (BucketLock (unat (1::uint) mod NBUCKET)),
      Release PoolLock, AcquireSleep (Buf 2)]"
proof -
  have h1: "bget_lookup 0 1 (boot 3) = Some Miss" by code_simp
  have h2: "lru_scan (bufs (boot 3)) 0 (ticks (boot 3)) None = Some 2" by code_simp
  have h3: "unat (blockno (bufs (boot 3) ! 2)) mod NBUCKET \<noteq> unat (1::uint) mod NBUCKET" by code_simp
  show ?thesis using h1 h2 h3 bget_two_bucket_locks [of 1 0 1 "boot 3" 2] by blast
qed

section \<open>No buffer to recycle\<close>

text \<open>
  C5: when the block is not in its bucket and no buffer has \<^verbatim>\<open>refcnt == 0\<close>,
  \<^verbatim>\<open>bget\<close> panics with "bget: no buffers". It hands out no buffer, it has released
  \<^verbatim>\<open>bcache.lock\<close> and every bucket lock it took, and the cache is as it was.
\<close>

theorem bget_no_buffers:
  assumes "bget_lookup dv bn s = Some Miss" and "0 \<notin> set (refcnts s)"
  shows "bget p dv bn s =
     Some ([Acquire (BucketLock (unat bn mod NBUCKET)), Release (BucketLock (unat bn mod NBUCKET)),
            Acquire PoolLock, Release PoolLock], Panics ''bget: no buffers'', s)"
proof -
  have "\<forall>b\<in>set (bufs s). \<not> (refcnt b = 0 \<and> timestamp b \<le> ticks s)"
    using assms(2) by (auto simp: refcnts_def)
  then have "lru_scan (bufs s) 0 (ticks s) None = None"
    by (rule lru_scan_none_accepted)
  then show ?thesis using assms(1) by (simp add: bget_def bget_admit_def Let_def)
qed

text \<open>A pool of two with blocks 1 and 2 held; block 3 is asked for.\<close>

theorem bget_no_buffers_witness:
  "bget_lookup 0 3 (after [Bget 1 0 1, Bget 1 0 2] (boot 2)) = Some Miss \<and>
   0 \<notin> set (refcnts (after [Bget 1 0 1, Bget 1 0 2] (boot 2))) \<and>
   bget 1 0 3 (after [Bget 1 0 1, Bget 1 0 2] (boot 2)) =
     Some ([Acquire (BucketLock (unat (3::uint) mod NBUCKET)), Release (BucketLock (unat (3::uint) mod NBUCKET)),
            Acquire PoolLock, Release PoolLock], Panics ''bget: no buffers'',
           after [Bget 1 0 1, Bget 1 0 2] (boot 2))"
proof -
  have h1: "bget_lookup 0 3 (after [Bget 1 0 1, Bget 1 0 2] (boot 2)) = Some Miss" by code_simp
  have h2: "0 \<notin> set (refcnts (after [Bget 1 0 1, Bget 1 0 2] (boot 2)))" by code_simp
  show ?thesis using h1 h2 bget_no_buffers [OF h1 h2, of 1] by blast
qed


section \<open>Buffers in use are not recycled\<close>

lemma deref_store_same: "deref s b = Some bf \<Longrightarrow> deref (store b f s) b = Some (f bf)"
  by (cases b) (auto split: if_splits)

lemma acquiresleep_returns:
  "acquiresleep p b s = (Returns c, s') \<Longrightarrow> \<exists>bf. deref s' c = Some bf \<and> lock bf = Some p"
  by (auto simp: acquiresleep_def deref_store_same split: option.splits)

lemma bget_returns_locked:
  assumes "bget p dv bn s = Some (evs, Returns b, s')"
  shows "\<exists>bf. deref s' b = Some bf \<and> lock bf = Some p"
  using assms
  by (auto simp: bget_def bget_hit_def bget_admit_def Let_def
      split: option.splits lookup.splits prod.splits dest: acquiresleep_returns)

lemma bget_no_disk:
  assumes "bget p dv bn s = Some (evs, out, s')"
  shows "DiskRW c w \<notin> set evs"
  using assms
  by (auto simp: bget_def bget_hit_def bget_admit_def Let_def
      split: option.splits lookup.splits prod.splits if_splits)


lemma bread_after:
  "result_of (bread p dv bn s) = Some (evs, Returns b) \<Longrightarrow>
   bread p dv bn s = Some (evs, Returns b, after [Bread p dv bn] s)"
  by (auto simp: result_of_def after_def split: option.splits)




section \<open>The sleep lock must be held\<close>




section \<open>bread\<close>

text \<open>
  C7: the step of \<^verbatim>\<open>bread\<close> after \<^verbatim>\<open>bget\<close> reads the block from the device
  into the buffer exactly when the buffer is not valid, once, and then sets
  \<^verbatim>\<open>valid\<close>; on a valid buffer it does nothing. \<^verbatim>\<open>bread\<close> returns the buffer
  that \<^verbatim>\<open>bget\<close> returned, \<^verbatim>\<open>bget\<close> does no device transfer, and the buffer
  returned by \<^verbatim>\<open>bread\<close> is valid either way.
\<close>

theorem bread_valid:
  "(deref s1 c = Some cf \<longrightarrow>
      ensure_valid c s1 =
        (if valid cf then ([], Returns c, s1)
         else ([DiskRW c False], Returns c,
               store c (\<lambda>x. x\<lparr>valid := True\<rparr>) (virtio_disk_rw c False s1))) \<and>
      map_option valid (deref (snd (snd (ensure_valid c s1))) c) = Some True \<and>
      map_option data (deref (snd (snd (ensure_valid c s1))) c) =
        Some (if valid cf then data cf else disk s1 (dev cf, blockno cf))) \<and>
   (bread p dv bn s = Some (evs, Returns b, s') \<longrightarrow>
      (\<exists>evs1 s1 bf. bget p dv bn s = Some (evs1, Returns b, s1) \<and> deref s1 b = Some bf \<and>
         (\<forall>c w. DiskRW c w \<notin> set evs1) \<and>
         (if valid bf then evs = evs1 \<and> s' = s1
          else evs = evs1 @ [DiskRW b False] \<and>
               s' = store b (\<lambda>x. x\<lparr>valid := True\<rparr>) (virtio_disk_rw b False s1)) \<and>
         (\<exists>bf'. deref s' b = Some bf' \<and> valid bf')))"
proof -
  have fill: "ensure_valid c s1 =
        (if valid cf then ([], Returns c, s1)
         else ([DiskRW c False], Returns c,
               store c (\<lambda>x. x\<lparr>valid := True\<rparr>) (virtio_disk_rw c False s1))) \<and>
      map_option valid (deref (snd (snd (ensure_valid c s1))) c) = Some True \<and>
      map_option data (deref (snd (snd (ensure_valid c s1))) c) =
        Some (if valid cf then data cf else disk s1 (dev cf, blockno cf))"
    if d: "deref s1 c = Some cf" for c s1 cf
  proof (cases "valid cf")
    case True
    then show ?thesis using d by (simp add: ensure_valid_def)
  next
    case False
    have "deref (virtio_disk_rw c False s1) c = Some (cf\<lparr>data := disk s1 (dev cf, blockno cf)\<rparr>)"
      using d by (simp add: virtio_disk_rw_def deref_store_same)
    then have "deref (store c (\<lambda>x. x\<lparr>valid := True\<rparr>) (virtio_disk_rw c False s1)) c
       = Some (cf\<lparr>data := disk s1 (dev cf, blockno cf), valid := True\<rparr>)"
      by (simp add: deref_store_same)
    then show ?thesis using False d by (simp add: ensure_valid_def Let_def)
  qed
  have whole: "\<exists>evs1 s1 bf. bget p dv bn s = Some (evs1, Returns b, s1) \<and> deref s1 b = Some bf \<and>
         (\<forall>c w. DiskRW c w \<notin> set evs1) \<and>
         (if valid bf then evs = evs1 \<and> s' = s1
          else evs = evs1 @ [DiskRW b False] \<and>
               s' = store b (\<lambda>x. x\<lparr>valid := True\<rparr>) (virtio_disk_rw b False s1)) \<and>
         (\<exists>bf'. deref s' b = Some bf' \<and> valid bf')"
    if r: "bread p dv bn s = Some (evs, Returns b, s')"
  proof -
    from r obtain evs1 c' s1' where g: "bget p dv bn s = Some (evs1, Returns c', s1')"
      and e: "ensure_valid c' s1' = (drop (length evs1) evs, Returns b, s')"
      and ev: "evs = evs1 @ drop (length evs1) evs"
      by (auto simp: bread_def split: option.splits outcome.splits prod.splits)
    from bget_returns_locked [OF g] obtain bf where d: "deref s1' c' = Some bf" by blast
    note f = fill [OF d]
    have cb: "c' = b" using e f by (auto split: if_splits)
    have nd: "\<forall>c w. DiskRW c w \<notin> set evs1" using bget_no_disk [OF g] by blast
    have v: "\<exists>bf'. deref s' b = Some bf' \<and> valid bf'"
      using e f cb by auto
    show ?thesis
    proof (cases "valid bf")
      case True
      then show ?thesis using g e ev d cb nd v f by auto
    next
      case False
      then show ?thesis using g e ev d cb nd v f by auto
    qed
  qed
  show ?thesis using fill whole by blast
qed

text \<open>
  The first \<^verbatim>\<open>bread(0, 1)\<close> after boot reads the device. With the buffer pinned and
  released, a second \<^verbatim>\<open>bread(0, 1)\<close> finds it valid and reads nothing.
\<close>

theorem bread_valid_witness:
  "result_of (bread 1 0 1 (boot 3)) =
     Some ([Acquire (BucketLock 1), Release (BucketLock 1), Acquire PoolLock,
            Acquire (BucketLock 1), Acquire (BucketLock 0), Release (BucketLock 0),
            Release (BucketLock 1), Release PoolLock, AcquireSleep (Buf 2),
            DiskRW (Buf 2) False], Returns (Buf 2)) \<and>
   (\<exists>bf'. deref (after [Bread 1 0 1] (boot 3)) (Buf 2) = Some bf' \<and> valid bf') \<and>
   deref (boot 3) (Buf 0) = Some zero_buf \<and>
   map_option valid (deref (snd (snd (ensure_valid (Buf 0) (boot 3)))) (Buf 0)) = Some True \<and>
   result_of (bread 2 0 1 (after [Bread 1 0 1, Bpin (Buf 2), Brelse 1 (Buf 2)] (boot 3))) =
     Some ([Acquire (BucketLock 1), Release (BucketLock 1), AcquireSleep (Buf 2)], Returns (Buf 2))"
proof -
  have h: "result_of (bread 1 0 1 (boot 3)) =
     Some ([Acquire (BucketLock 1), Release (BucketLock 1), Acquire PoolLock,
            Acquire (BucketLock 1), Acquire (BucketLock 0), Release (BucketLock 0),
            Release (BucketLock 1), Release PoolLock, AcquireSleep (Buf 2),
            DiskRW (Buf 2) False], Returns (Buf 2))"
    by code_simp
  have v: "\<exists>bf'. deref (after [Bread 1 0 1] (boot 3)) (Buf 2) = Some bf' \<and> valid bf'"
    using bread_after [OF h]
      bread_valid [of _ _ _ 1 0 1 "boot 3" _ "Buf 2" "after [Bread 1 0 1] (boot 3)"]
    by blast
  have d: "deref (boot 3) (Buf 0) = Some zero_buf" by code_simp
  have f: "map_option valid (deref (snd (snd (ensure_valid (Buf 0) (boot 3)))) (Buf 0)) = Some True"
    using d bread_valid [of "boot 3" "Buf 0" zero_buf] by blast
  have h2: "result_of (bread 2 0 1 (after [Bread 1 0 1, Bpin (Buf 2), Brelse 1 (Buf 2)] (boot 3))) =
     Some ([Acquire (BucketLock 1), Release (BucketLock 1), AcquireSleep (Buf 2)], Returns (Buf 2))"
    by code_simp
  show ?thesis using h v d f h2 by blast
qed

section \<open>One process, one buffer at a time\<close>

text \<open>
  When no buffer is in use every bucket is empty, as after \<^verbatim>\<open>binit\<close>: \<^verbatim>\<open>bget\<close>
  does not find the block, recycles the buffer that the loop chooses, and
  \<^verbatim>\<open>brelse\<close> takes it out of its bucket again.
\<close>

lemma fold_initsleeplock:
  "\<forall>b\<in>set (bufs s). lock b = None \<Longrightarrow> fold (\<lambda>i. initsleeplock (Buf i)) is s = s"
proof (induction "is")
  case Nil
  then show ?case by simp
next
  case (Cons i "is")
  have "(bufs s)[i := (bufs s ! i)\<lparr>lock := None\<rparr>] = bufs s"
  proof (cases "i < length (bufs s)")
    case True
    then have "lock (bufs s ! i) = None" using Cons.prems by simp
    then show ?thesis by (simp add: list_update_same_conv True)
  next
    case False
    then show ?thesis by (simp add: list_update_beyond)
  qed
  then have "initsleeplock (Buf i) s = s" by (simp add: initsleeplock_def)
  then show ?case using Cons by simp
qed

lemma fold_init_head_bufs: "bufs (fold init_head is s) = bufs s"
  by (induction "is" arbitrary: s) (auto simp: init_head_def)

lemma boot_bufs: "bufs (boot n) = replicate n zero_buf"
proof -
  have b: "bufs (fold init_head [0..<NBUCKET] (zeroed n blank_disk)) = replicate n zero_buf"
    by (simp add: fold_init_head_bufs zeroed_def)
  then have "\<forall>b\<in>set (bufs (fold init_head [0..<NBUCKET] (zeroed n blank_disk))). lock b = None"
    by (simp add: zero_buf_def)
  then show ?thesis using b by (simp add: boot_def binit_def Let_def fold_initsleeplock)
qed

lemma boot_table:
  "table (boot n) = map (\<lambda>i. zero_buf\<lparr>nxt := Table i, prv := Table i\<rparr>) [0..<NBUCKET]"
proof -
  have b: "bufs (fold init_head [0..<NBUCKET] (zeroed n blank_disk)) = replicate n zero_buf"
    by (simp add: fold_init_head_bufs zeroed_def)
  then have l: "\<forall>b\<in>set (bufs (fold init_head [0..<NBUCKET] (zeroed n blank_disk))). lock b = None"
    by (simp add: zero_buf_def)
  have "table (fold init_head [0..<NBUCKET] (zeroed n blank_disk))
      = map (\<lambda>i. zero_buf\<lparr>nxt := Table i, prv := Table i\<rparr>) [0..<NBUCKET]"
    by (simp add: zeroed_def NBUCKET_def upt_rec eval_nat_numeral init_head_def)
  then show ?thesis using l by (simp add: boot_def binit_def Let_def fold_initsleeplock)
qed

lemma table_boot_nth:
  "k < NBUCKET \<Longrightarrow> table (boot n) ! k = zero_buf\<lparr>prv := Table k, nxt := Table k\<rparr>"
  by (simp add: boot_table zero_buf_def)

lemma table_boot_length: "length (table (boot n)) = NBUCKET"
  by (simp add: boot_table)

lemma bucket_lt: "unat (bn::uint) mod NBUCKET < NBUCKET"
  by (simp add: NBUCKET_def)

lemma bget_lookup_empty:
  assumes "table s = table (boot 0)"
  shows "bget_lookup dv bn s = Some Miss"
  using assms bucket_lt [of bn]
  by (simp add: bget_lookup_def Let_def table_boot_nth bucket_walk.simps)

lemma use_block_quiet:
  assumes t: "table s = table (boot 0)"
    and v: "lru_scan (bufs s) 0 t None = Some v"
    and l: "lock (bufs s ! v) = None"
  shows "use_block p (t, dv, bn) s =
     Some (Buf v, s\<lparr>ticks := t, bufs := (bufs s)[v := (bufs s ! v)\<lparr>dev := dv, blockno := bn, valid := False,
        timestamp := t, prv := Table (unat bn mod NBUCKET), nxt := Table (unat bn mod NBUCKET),
        lock := None, refcnt := 0\<rparr>]\<rparr>)"
proof -
  let ?k = "unat bn mod NBUCKET"
  let ?s0 = "s\<lparr>ticks := t\<rparr>"
  have vl: "v < length (bufs s)" using lru_scan_victim [OF v] by simp
  have k: "?k < NBUCKET" by (rule bucket_lt)
  have hk: "table s ! ?k = zero_buf\<lparr>prv := Table ?k, nxt := Table ?k\<rparr>"
    using t k by (simp add: table_boot_nth)
  have tl: "length (table s) = NBUCKET" using t by (simp add: table_boot_length)
  have lk: "bget_lookup dv bn ?s0 = Some Miss"
    using t by (simp add: bget_lookup_empty)
  let ?b1 = "(bufs s ! v)\<lparr>dev := dv, blockno := bn, valid := False, refcnt := 1, timestamp := t,
       prv := Table ?k, nxt := Table ?k, lock := Some p\<rparr>"
  let ?s1 = "s\<lparr>ticks := t, bufs := (bufs s)[v := ?b1],
       table := (table s)[?k := (table s ! ?k)\<lparr>nxt := Buf v, prv := Buf v\<rparr>]\<rparr>"
  have adm: "bget_admit p dv bn ?s0 =
     ([Acquire PoolLock, Acquire (BucketLock ?k)]
        @ (if unat (blockno (bufs s ! v)) mod NBUCKET \<noteq> ?k then [Acquire (BucketLock (unat (blockno (bufs s ! v)) mod NBUCKET))] else [])
        @ (if unat (blockno (bufs s ! v)) mod NBUCKET \<noteq> ?k then [Release (BucketLock (unat (blockno (bufs s ! v)) mod NBUCKET))] else [])
        @ [Release (BucketLock ?k), Release PoolLock, AcquireSleep (Buf v)], Returns (Buf v), ?s1)"
    using v vl l hk tl k
    by (simp add: bget_admit_def Let_def bucket_insert_def acquiresleep_def)
  have g: "bget p dv bn ?s0 = Some ([Acquire (BucketLock ?k), Release (BucketLock ?k)] @ fst (bget_admit p dv bn ?s0), Returns (Buf v), ?s1)"
    using lk adm by (simp add: bget_def Let_def)
  have tid: "(table s)[?k := zero_buf\<lparr>nxt := Table ?k, prv := Table ?k\<rparr>] = table s"
    using hk tl k by (simp add: list_update_same_conv zero_buf_def)
  have rel: "brelse p (Buf v) ?s1 =
     ([ReleaseSleep (Buf v), Acquire (BucketLock ?k), Release (BucketLock ?k)], Returns (),
      s\<lparr>ticks := t, bufs := (bufs s)[v := (bufs s ! v)\<lparr>dev := dv, blockno := bn, valid := False,
        timestamp := t, prv := Table ?k, nxt := Table ?k, lock := None, refcnt := 0\<rparr>]\<rparr>)"
    using vl hk tl k tid
    by (simp add: brelse_def holdingsleep_def releasesleep_def unlink_def Let_def)
  show ?thesis using g rel by (simp add: use_block_def)
qed


lemma use_blocks_snoc:
  "use_blocks p (rs @ [r]) s =
     (case use_blocks p rs s of
        None \<Rightarrow> None
      | Some (bs, s1) \<Rightarrow>
          (case use_block p r s1 of
             None \<Rightarrow> None
           | Some (b, s2) \<Rightarrow> Some (bs @ [b], s2)))"
  by (induction rs arbitrary: s) (auto split: option.splits)

lemma used_buf_fields:
  "refcnt (used_buf r) = 0" "lock (used_buf r) = None" "timestamp (used_buf r) = fst r"
  "label (used_buf r) = snd r"
  by (auto simp: used_buf_def zero_buf_def label_def split: prod.splits)

lemma zero_buf_fields:
  "refcnt zero_buf = 0" "lock zero_buf = None" "timestamp zero_buf = 0"
  by (auto simp: zero_buf_def)

lemma zero_buf_used:
  "zero_buf\<lparr>dev := dv, blockno := bn, valid := False, timestamp := t,
      prv := Table (unat bn mod NBUCKET), nxt := Table (unat bn mod NBUCKET),
      lock := None, refcnt := 0\<rparr> = used_buf (t, dv, bn)"
  by (simp add: used_buf_def zero_buf_def)

lemma fill_pool:
  assumes "\<forall>r\<in>set rs. 0 < fst r" and "length rs \<le> N"
  shows "\<exists>s1. use_blocks p rs (boot N) = Some (map Buf (rev [N - length rs..<N]), s1) \<and>
     table s1 = table (boot 0) \<and>
     bufs s1 = replicate (N - length rs) zero_buf @ map used_buf (rev rs)"
  using assms
proof (induction rs rule: rev_induct)
  case Nil
  then show ?case by (simp add: boot_bufs boot_table)
next
  case (snoc r rs)
  then obtain s1 where u: "use_blocks p rs (boot N) = Some (map Buf (rev [N - length rs..<N]), s1)"
    and t: "table s1 = table (boot 0)"
    and b: "bufs s1 = replicate (N - length rs) zero_buf @ map used_buf (rev rs)"
    by auto
  let ?m = "N - Suc (length rs)"
  have m: "N - length rs = Suc ?m" using snoc.prems by simp
  have b': "bufs s1 = replicate ?m zero_buf @ zero_buf # map used_buf (rev rs)"
    using b m by (simp add: replicate_append_same)
  have pos: "\<forall>x\<in>set (map used_buf (rev rs)). refcnt x = 0 \<longrightarrow> timestamp zero_buf < timestamp x"
    using snoc.prems by (auto simp: used_buf_fields zero_buf_fields)
  have sc: "lru_scan (bufs s1) 0 (fst r) None = Some ?m"
    using lru_scan_pick [of zero_buf "fst r" "replicate ?m zero_buf" "map used_buf (rev rs)" 0 None] pos
    by (simp add: b' zero_buf_fields)
  have nth: "bufs s1 ! ?m = zero_buf" by (simp add: b' nth_append)
  obtain t dv bn where r: "r = (t, dv, bn)" by (cases r)
  have ub: "use_block p r s1 = Some (Buf ?m, s1\<lparr>ticks := t, bufs := (bufs s1)[?m := used_buf r]\<rparr>)"
    using use_block_quiet [OF t, of t ?m p dv bn] sc nth
    by (simp add: r zero_buf_fields zero_buf_used)
  have upd: "(bufs s1)[?m := used_buf r] = replicate ?m zero_buf @ map used_buf (rev (rs @ [r]))"
    by (simp add: b' list_update_append)
  have ix: "rev [N - length (rs @ [r])..<N] = rev [N - length rs..<N] @ [?m]"
    using m by (simp add: upt_conv_Cons)
  show ?case
    using u ub t upd ix by (simp add: use_blocks_snoc)
qed

text \<open>
  C4, as stated: after \<open>N\<close> uses of distinct blocks on a pool of \<open>N\<close>, none
  overlapping another, the next block recycles the buffer of the block released first.
  On a pool of three, with the clock still at 0 during the first use: block 1 gets buffer
  2, keeps timestamp 0, and is recycled at once by block 2; block 4 then takes buffer 0,
  which was never used and is labelled \<open>(0, 0)\<close>.
\<close>

theorem lru_clock_zero_counterexample:
  "evicted 1 [(0, 0, 1), (1, 0, 2), (1, 0, 3)] (1, 0, 4) (boot 3) = Some (0, 0) \<and>
   map_option fst (use_blocks 1 ([(0, 0, 1), (1, 0, 2), (1, 0, 3)] @ [(1, 0, 4)]) (boot 3)) =
     Some [Buf 2, Buf 2, Buf 1, Buf 0]"
  by code_simp

text \<open>
  C4, amended: the loop chooses a buffer with \<^verbatim>\<open>refcnt == 0\<close> whose timestamp is
  the smallest among such buffers. On a pool of \<open>N\<close> after boot, used by one process
  for \<open>N\<close> blocks, one at a time, at clock readings that never decrease and are at
  least 1, the blocks are put in buffers \<open>N - 1\<close> down to 0, and the block used next
  recycles buffer \<open>N - 1\<close>, labelled with the block that was released first.
\<close>

theorem lru_single_threaded:
  assumes "length rs = N" and "0 < N" and "sorted (map fst (rs @ [r]))" and "0 < fst (hd rs)"
  shows "(lru_scan (bufs s) 0 (ticks s) None = Some v \<longrightarrow>
        refcnt (bufs s ! v) = 0 \<and>
        (\<forall>j<length (bufs s). refcnt (bufs s ! j) = 0 \<longrightarrow> timestamp (bufs s ! v) \<le> timestamp (bufs s ! j))) \<and>
     evicted p rs r (boot N) = Some (snd (hd rs)) \<and>
     map_option fst (use_blocks p (rs @ [r]) (boot N)) = Some (map Buf (rev [0..<N]) @ [Buf (N - 1)])"
proof -
  have ch: "lru_scan (bufs s) 0 (ticks s) None = Some v \<longrightarrow>
        refcnt (bufs s ! v) = 0 \<and>
        (\<forall>j<length (bufs s). refcnt (bufs s ! j) = 0 \<longrightarrow> timestamp (bufs s ! v) \<le> timestamp (bufs s ! j))"
    using lru_scan_victim by blast
  obtain r1 rest where rs: "rs = r1 # rest" using assms(1,2) by (cases rs) auto
  have srt: "sorted (map fst rs)" and le: "\<forall>x\<in>set rs. fst x \<le> fst r"
    using assms(3) by (auto simp: sorted_append)
  have r1le: "\<forall>x\<in>set rest. fst r1 \<le> fst x" using srt rs by simp
  have pos: "\<forall>x\<in>set rs. 0 < fst x"
    using assms(4) r1le rs by (auto simp: less_le_trans)
  from fill_pool [OF pos, of N p] assms(1)
  obtain s1 where u: "use_blocks p rs (boot N) = Some (map Buf (rev [0..<N]), s1)"
    and t: "table s1 = table (boot 0)"
    and b: "bufs s1 = map used_buf (rev rs)"
    by auto
  have b': "bufs s1 = map used_buf (rev rest) @ used_buf r1 # []" using b rs by simp
  have n: "length (map used_buf (rev rest)) = N - 1" using assms(1) rs by auto
  have sc: "lru_scan (bufs s1) 0 (fst r) None = Some (N - 1)"
    using lru_scan_pick [of "used_buf r1" "fst r" "map used_buf (rev rest)" "[]" 0 None] r1le le rs n
    by (simp add: b' used_buf_fields)
  have nth: "bufs s1 ! (N - 1) = used_buf r1"
    using n by (simp add: b' nth_append)
  obtain t' dv bn where r: "r = (t', dv, bn)" by (cases r)
  have ub: "\<exists>s2. use_block p r s1 = Some (Buf (N - 1), s2)"
    using use_block_quiet [OF t, of t' "N - 1" p dv bn] sc nth
    by (simp add: r used_buf_fields)
  have d: "deref s1 (Buf (N - 1)) = Some (used_buf r1)"
    using nth assms(2) b assms(1) by simp
  have "evicted p rs r (boot N) = Some (snd (hd rs))"
    using u ub d rs by (auto simp: evicted_def used_buf_fields)
  moreover have "map_option fst (use_blocks p (rs @ [r]) (boot N)) = Some (map Buf (rev [0..<N]) @ [Buf (N - 1)])"
    using u ub by (auto simp: use_blocks_snoc)
  ultimately show ?thesis using ch by blast
qed

theorem lru_single_threaded_witness:
  "length [(1, 0, 1), (1, 0, 2), (2, 0, 3) :: uint \<times> uint \<times> uint] = 3 \<and> (0::nat) < 3 \<and>
   sorted (map fst ([(1, 0, 1), (1, 0, 2), (2, 0, 3)] @ [(2, 0, 4) :: uint \<times> uint \<times> uint])) \<and>
   0 < fst (hd [(1, 0, 1), (1, 0, 2), (2, 0, 3) :: uint \<times> uint \<times> uint]) \<and>
   evicted 1 [(1, 0, 1), (1, 0, 2), (2, 0, 3)] (2, 0, 4) (boot 3) = Some (0, 1) \<and>
   map_option fst (use_blocks 1 ([(1, 0, 1), (1, 0, 2), (2, 0, 3)] @ [(2, 0, 4)]) (boot 3)) =
     Some [Buf 2, Buf 1, Buf 0, Buf 2]"
proof -
  have h1: "length [(1, 0, 1), (1, 0, 2), (2, 0, 3) :: uint \<times> uint \<times> uint] = 3" by simp
  have h2: "(0::nat) < 3" by simp
  have h3: "sorted (map fst ([(1, 0, 1), (1, 0, 2), (2, 0, 3)] @ [(2, 0, 4) :: uint \<times> uint \<times> uint]))" by simp
  have h4: "0 < fst (hd [(1, 0, 1), (1, 0, 2), (2, 0, 3) :: uint \<times> uint \<times> uint])" by simp
  have e: "map Buf (rev [0..<3]) @ [Buf (3 - 1)] = [Buf 2, Buf 1, Buf 0, Buf 2]"
    by (simp add: upt_rec)
  have l: "snd (hd [(1, 0, 1), (1, 0, 2), (2, 0, 3) :: uint \<times> uint \<times> uint]) = (0, 1)" by simp
  note th = lru_single_threaded [OF h1 h2 h3 h4, of "boot 3" 2 1, THEN conjunct2]
  have c1: "evicted 1 [(1, 0, 1), (1, 0, 2), (2, 0, 3)] (2, 0, 4) (boot 3) = Some (0, 1)"
    using th [THEN conjunct1] by (simp only: l)
  have c2: "map_option fst (use_blocks 1 ([(1, 0, 1), (1, 0, 2), (2, 0, 3)] @ [(2, 0, 4)]) (boot 3)) =
     Some [Buf 2, Buf 1, Buf 0, Buf 2]"
    using th [THEN conjunct2] by (simp only: e)
  show ?thesis using h1 h2 h3 h4 c1 c2 by blast
qed


section \<open>Two defects\<close>

text \<open>
  C1: at most one buffer with \<^verbatim>\<open>refcnt > 0\<close> is labelled with a given device and
  block number, also when calls of \<^verbatim>\<open>bget\<close> interleave; \<^verbatim>\<open>bget\<close> looks again
  in the bucket once it holds \<^verbatim>\<open>bcache.lock\<close>. The code does not look again.
  Processes 1 and 2 both ask for block 1 of device 0 on a pool of three after boot; both
  search bucket 1 before either recycles a buffer. Buffers 2 and 1 end up labelled
  \<open>(0, 1)\<close>, each with \<^verbatim>\<open>refcnt\<close> 1.
\<close>

theorem duplicate_after_race:
  "map_option labels (run [Lookup 1 0 1, Lookup 2 0 1, Admit 1 0 1, Admit 2 0 1] (boot 3)) =
     Some [(0, 0), (0, 1), (0, 1)] \<and>
   map_option refcnts (run [Lookup 1 0 1, Lookup 2 0 1, Admit 1 0 1, Admit 2 0 1] (boot 3)) =
     Some [0, 1, 1] \<and>
   map_option no_duplicate (run [Lookup 1 0 1, Lookup 2 0 1, Admit 1 0 1, Admit 2 0 1] (boot 3)) =
     Some False"
  by code_simp


lemma bucket_walk_two_cycle:
  assumes a: "deref s a = Some af" "nxt af = b" "\<not> (blockno af = bn \<and> dev af = dv)" "a \<noteq> Table k"
    and b: "deref s b = Some bf" "nxt bf = a" "\<not> (blockno bf = bn \<and> dev bf = dv)" "b \<noteq> Table k"
  shows "bucket_walk s k dv bn a = None"
proof (rule ccontr)
  assume "bucket_walk s k dv bn a \<noteq> None"
  then obtain r where r: "bucket_walk s k dv bn a = Some r" by blast
  have "s = s \<and> k = k \<and> dv = dv \<and> bn = bn \<longrightarrow> a \<noteq> a \<and> a \<noteq> b"
  proof (rule bucket_walk.raw_induct [OF _ r, where P = "\<lambda>s' k' dv' bn' x y.
          s' = s \<and> k' = k \<and> dv' = dv \<and> bn' = bn \<longrightarrow> x \<noteq> a \<and> x \<noteq> b"])
    fix walk s' k' dv' bn' x y
    assume ih: "\<And>s' k' dv' bn' x y. walk s' k' dv' bn' x = Some y \<Longrightarrow>
        s' = s \<and> k' = k \<and> dv' = dv \<and> bn' = bn \<longrightarrow> x \<noteq> a \<and> x \<noteq> b"
      and eq: "(if x = Table k' then Some Miss
         else case deref s' x of
                None \<Rightarrow> Some BadPtr
              | Some bf \<Rightarrow>
                  if blockno bf = bn' \<and> dev bf = dv' then Some (Hit x)
                  else walk s' k' dv' bn' (nxt bf)) = Some y"
    show "s' = s \<and> k' = k \<and> dv' = dv \<and> bn' = bn \<longrightarrow> x \<noteq> a \<and> x \<noteq> b"
    proof (intro impI)
      assume e: "s' = s \<and> k' = k \<and> dv' = dv \<and> bn' = bn"
      have "x \<noteq> a"
      proof
        assume "x = a"
        then have "walk s k dv bn b = Some y" using eq e a by simp
        from ih [OF this] show False by simp
      qed
      moreover have "x \<noteq> b"
      proof
        assume "x = b"
        then have "walk s k dv bn a = Some y" using eq e b by simp
        from ih [OF this] show False by simp
      qed
      ultimately show "x \<noteq> a \<and> x \<noteq> b" by simp
    qed
  qed
  then show False by simp
qed

text \<open>
  C3: a buffer is in the list of exactly one bucket while \<^verbatim>\<open>refcnt > 0\<close> and in
  none once \<^verbatim>\<open>refcnt\<close> is 0, also when \<^verbatim>\<open>bunpin\<close> brings it to 0.
  \<^verbatim>\<open>brelse\<close> unlinks the buffer at 0; \<^verbatim>\<open>bunpin\<close> does not. After
  \<^verbatim>\<open>bget\<close>, \<^verbatim>\<open>bpin\<close>, \<^verbatim>\<open>brelse\<close>, \<^verbatim>\<open>bunpin\<close> buffer 2 has
  \<^verbatim>\<open>refcnt\<close> 0 and a search of bucket 1 still finds it; after \<^verbatim>\<open>bget\<close>,
  \<^verbatim>\<open>brelse\<close> it does not. A later \<^verbatim>\<open>bget(0, 2)\<close> recycles the linked buffer
  into bucket 2, after which a search of bucket 1 for block 14 never comes back to the
  head of its list.
\<close>

theorem bunpin_leaves_buffer_linked:
  "map_option refcnts (run [Bget 1 0 1, Bpin (Buf 2), Brelse 1 (Buf 2), Bunpin (Buf 2)] (boot 3)) =
     Some [0, 0, 0] \<and>
   map_option (bget_lookup 0 1) (run [Bget 1 0 1, Bpin (Buf 2), Brelse 1 (Buf 2), Bunpin (Buf 2)] (boot 3)) =
     Some (Some (Hit (Buf 2))) \<and>
   map_option refcnts (run [Bget 1 0 1, Brelse 1 (Buf 2)] (boot 3)) = Some [0, 0, 0] \<and>
   map_option (bget_lookup 0 1) (run [Bget 1 0 1, Brelse 1 (Buf 2)] (boot 3)) = Some (Some Miss) \<and>
   map_option labels (run [Bget 1 0 1, Bpin (Buf 2), Brelse 1 (Buf 2), Bunpin (Buf 2), Bget 1 0 2] (boot 3)) =
     Some [(0, 0), (0, 0), (0, 2)] \<and>
   bget 1 0 14 (after [Bget 1 0 1, Bpin (Buf 2), Brelse 1 (Buf 2), Bunpin (Buf 2), Bget 1 0 2] (boot 3)) = None"
proof -
  let ?S = "after [Bget 1 0 1, Bpin (Buf 2), Brelse 1 (Buf 2), Bunpin (Buf 2), Bget 1 0 2] (boot 3)"
  have a: "map_option refcnts (run [Bget 1 0 1, Bpin (Buf 2), Brelse 1 (Buf 2), Bunpin (Buf 2)] (boot 3)) =
     Some [0, 0, 0]" by code_simp
  have b: "map_option (bget_lookup 0 1) (run [Bget 1 0 1, Bpin (Buf 2), Brelse 1 (Buf 2), Bunpin (Buf 2)] (boot 3)) =
     Some (Some (Hit (Buf 2)))" by code_simp
  have c: "map_option refcnts (run [Bget 1 0 1, Brelse 1 (Buf 2)] (boot 3)) = Some [0, 0, 0]" by code_simp
  have d: "map_option (bget_lookup 0 1) (run [Bget 1 0 1, Brelse 1 (Buf 2)] (boot 3)) = Some (Some Miss)"
    by code_simp
  have r: "map_option labels (run [Bget 1 0 1, Bpin (Buf 2), Brelse 1 (Buf 2), Bunpin (Buf 2), Bget 1 0 2] (boot 3)) =
     Some [(0, 0), (0, 0), (0, 2)]" by code_simp
  have f1: "deref ?S (Buf 2) = Some (bufs ?S ! 2)" by code_simp
  have f2: "nxt (bufs ?S ! 2) = Table 2" by code_simp
  have f3: "\<not> (blockno (bufs ?S ! 2) = 14 \<and> dev (bufs ?S ! 2) = 0)" by code_simp
  have g1: "deref ?S (Table 2) = Some (table ?S ! 2)" by code_simp
  have g2: "nxt (table ?S ! 2) = Buf 2" by code_simp
  have g3: "\<not> (blockno (table ?S ! 2) = 14 \<and> dev (table ?S ! 2) = 0)" by code_simp
  have h: "nxt (table ?S ! (unat (14::uint) mod NBUCKET)) = Buf 2" by code_simp
  have k: "unat (14::uint) mod NBUCKET = 1" by code_simp
  have "bucket_walk ?S 1 0 14 (Buf 2) = None"
    by (rule bucket_walk_two_cycle [OF f1 f2 f3 _ g1 g2 g3]) simp_all
  then have e: "bget 1 0 14 ?S = None"
    using h k by (simp add: bget_def bget_lookup_def Let_def)
  show ?thesis using a b c d r e by blast
qed

end
